theory Spec2Isabelle
  imports Complex_Main "HOL-Library.Word"
begin

section \<open>JavaScript strings\<close>

text \<open>
  A JavaScript string is a sequence of UTF-16 code units. \<open>length\<close>, \<open>substring\<close>,
  \<open>trim\<close> and the regular expressions of \<^verbatim>\<open>frontend/script.js\<close> (none has the \<open>u\<close>
  flag) all work on code units, so a string is a list of 16-bit words. The source file
  writes its few non-ASCII letters precomposed; they are below \<open>0x100\<close>, where the code
  unit of a character is its Latin-1 value.
\<close>

type_synonym cu = "16 word"
type_synonym jsstring = "cu list"

definition js :: "string \<Rightarrow> jsstring" where
  "js s = map of_char s"

text \<open>Letters of the source beyond ASCII.\<close>

definition ae :: string where "ae = [char_of (0xE4 :: nat)]"
definition oe :: string where "oe = [char_of (0xF6 :: nat)]"
definition ue :: string where "ue = [char_of (0xFC :: nat)]"
definition sz :: string where "sz = [char_of (0xDF :: nat)]"

text \<open>
  \<open>\s\<close> in a regular expression and \<open>String.prototype.trim\<close> use the same set: the
  WhiteSpace and LineTerminator code points of ECMAScript.
\<close>

definition is_line_terminator :: "cu \<Rightarrow> bool" where
  "is_line_terminator c = (c = 0x0A \<or> c = 0x0D \<or> c = 0x2028 \<or> c = 0x2029)"

definition is_space :: "cu \<Rightarrow> bool" where
  "is_space c =
     (c = 0x09 \<or> c = 0x0A \<or> c = 0x0B \<or> c = 0x0C \<or> c = 0x0D \<or> c = 0x20 \<or> c = 0xA0 \<or>
      c = 0x1680 \<or> c = 0x2000 \<or> c = 0x2001 \<or> c = 0x2002 \<or> c = 0x2003 \<or> c = 0x2004 \<or>
      c = 0x2005 \<or> c = 0x2006 \<or> c = 0x2007 \<or> c = 0x2008 \<or> c = 0x2009 \<or> c = 0x200A \<or>
      c = 0x2028 \<or> c = 0x2029 \<or> c = 0x202F \<or> c = 0x205F \<or> c = 0x3000 \<or> c = 0xFEFF)"

definition trim :: "jsstring \<Rightarrow> jsstring" where
  "trim s = rev (dropWhile is_space (rev (dropWhile is_space s)))"

text \<open>\<open>Array.prototype.join\<close> on an array of strings.\<close>

fun join :: "jsstring \<Rightarrow> jsstring list \<Rightarrow> jsstring" where
  "join sep [] = []"
| "join sep [x] = x"
| "join sep (x # y # ys) = x @ sep @ join sep (y # ys)"

text \<open>\<open>String.prototype.includes\<close>.\<close>

fun str_includes :: "jsstring \<Rightarrow> jsstring \<Rightarrow> bool" where
  "str_includes [] t = (t = [])"
| "str_includes (x # xs) t = (take (length t) (x # xs) = t \<or> str_includes xs t)"

section \<open>The regular expressions of the source\<close>

text \<open>
  The fragment of ECMAScript regular expressions that \<^verbatim>\<open>script.js\<close> uses: the
  assertion \<open>^\<close>, literal text, the classes \<open>.\<close> and \<open>\s\<close>, sequence, alternation,
  the greedy \<open>?\<close>, the greedy \<open>*\<close> and the lazy \<open>*?\<close> (in the source only ever on a
  single class), and capturing groups. \<open>(?:...)\<close> only brackets and needs no constructor.
\<close>

datatype cclass = Any | Space

datatype regex =
    Bol
  | Lits jsstring
  | Cls cclass
  | Cat "regex list"
  | Alt regex regex
  | Opt regex
  | Star cclass
  | Lazy cclass
  | Group nat regex

record flags =
  ignoreCase :: bool
  dotAll :: bool

text \<open>
  Canonicalize of a code unit under the \<open>i\<close> flag without \<open>u\<close>: the upper-case
  mapping, except that a code unit from \<open>0x80\<close> on is never mapped below \<open>0x80\<close>. Every
  literal of an \<open>i\<close> pattern of the source is ASCII, and a code unit matches an ASCII
  literal exactly when their ASCII upper-case forms coincide; this is what \<open>canon\<close>
  computes.
\<close>

definition canon :: "cu \<Rightarrow> cu" where
  "canon c = (if 0x61 \<le> c \<and> c \<le> 0x7A then c - 0x20 else c)"

definition lit_ok :: "flags \<Rightarrow> cu \<Rightarrow> cu \<Rightarrow> bool" where
  "lit_ok f a x = (if ignoreCase f then canon x = canon a else x = a)"

fun accepts :: "flags \<Rightarrow> cclass \<Rightarrow> cu \<Rightarrow> bool" where
  "accepts f Any x = (dotAll f \<or> \<not> is_line_terminator x)"
| "accepts f Space x = is_space x"

type_synonym captures = "(nat \<times> jsstring) list"

text \<open>
  The backtracking matcher, with the continuation of the ECMAScript semantics as a
  stack of what is still to match. \<open>Close n s0\<close> ends group \<open>n\<close>, which began when the
  subject left was \<open>s0\<close>. The arguments are the index of the next code unit, the subject
  from there on and the captures so far; the result is the subject left after the match
  and the captures, or \<open>None\<close> when every alternative has failed. Alternatives are
  tried in the order of ECMAScript: the left branch of \<open>|\<close> first, one more repetition
  before none for the greedy \<open>?\<close> and \<open>*\<close>, none before one more for the lazy \<open>*?\<close>.
  (ECMAScript also refuses a repetition that matches the empty string; \<open>*\<close> is only
  on single classes here, and no body of \<open>?\<close> in the source can match the empty string.)
\<close>

datatype item = Re regex | Close nat jsstring

fun weight :: "regex \<Rightarrow> nat" where
  "weight Bol = 1"
| "weight (Lits s) = Suc (length s)"
| "weight (Cls a) = 1"
| "weight (Cat rs) = Suc (sum_list (map weight rs))"
| "weight (Alt r1 r2) = Suc (weight r1 + weight r2)"
| "weight (Opt r) = Suc (weight r)"
| "weight (Star a) = 1"
| "weight (Lazy a) = 1"
| "weight (Group n r) = Suc (Suc (weight r))"

fun iweight :: "item \<Rightarrow> nat" where
  "iweight (Re r) = weight r"
| "iweight (Close n s0) = 1"

function mtch :: "flags \<Rightarrow> item list \<Rightarrow> nat \<Rightarrow> jsstring \<Rightarrow> captures \<Rightarrow> (jsstring \<times> captures) option" where
  "mtch f [] p s c = Some (s, c)"
| "mtch f (Close n s0 # k) p s c = mtch f k p s ((n, take (length s0 - length s) s0) # c)"
| "mtch f (Re Bol # k) p s c = (if p = 0 then mtch f k p s c else None)"
| "mtch f (Re (Lits []) # k) p s c = mtch f k p s c"
| "mtch f (Re (Lits (a # as)) # k) p s c =
     (case s of
        [] \<Rightarrow> None
      | x # xs \<Rightarrow> if lit_ok f a x then mtch f (Re (Lits as) # k) (Suc p) xs c else None)"
| "mtch f (Re (Cls a) # k) p s c =
     (case s of
        [] \<Rightarrow> None
      | x # xs \<Rightarrow> if accepts f a x then mtch f k (Suc p) xs c else None)"
| "mtch f (Re (Cat rs) # k) p s c = mtch f (map Re rs @ k) p s c"
| "mtch f (Re (Alt r1 r2) # k) p s c =
     (case mtch f (Re r1 # k) p s c of
        Some m \<Rightarrow> Some m
      | None \<Rightarrow> mtch f (Re r2 # k) p s c)"
| "mtch f (Re (Opt r) # k) p s c =
     (case mtch f (Re r # k) p s c of
        Some m \<Rightarrow> Some m
      | None \<Rightarrow> mtch f k p s c)"
| "mtch f (Re (Star a) # k) p s c =
     (case s of
        [] \<Rightarrow> mtch f k p s c
      | x # xs \<Rightarrow>
          if accepts f a x
          then (case mtch f (Re (Star a) # k) (Suc p) xs c of
                  Some m \<Rightarrow> Some m
                | None \<Rightarrow> mtch f k p s c)
          else mtch f k p s c)"
| "mtch f (Re (Lazy a) # k) p s c =
     (case mtch f k p s c of
        Some m \<Rightarrow> Some m
      | None \<Rightarrow>
          (case s of
             [] \<Rightarrow> None
           | x # xs \<Rightarrow> if accepts f a x then mtch f (Re (Lazy a) # k) (Suc p) xs c else None))"
| "mtch f (Re (Group n r) # k) p s c = mtch f (Re r # Close n s # k) p s c"
  by pat_completeness auto
termination
  by (relation "measures [\<lambda>(f, k, p, s, c). sum_list (map iweight k), \<lambda>(f, k, p, s, c). length s]")
     (auto simp: comp_def)

text \<open>
  \<open>RegExp.prototype.exec\<close> for a regular expression without the \<open>g\<close> flag, as
  \<open>String.prototype.match\<close> calls it: the match is tried at index 0, then 1, and so on
  up to the length of the subject. The result is the captures of the leftmost match
  (\<open>match[n]\<close> is \<open>map_of m n\<close>, and \<open>None\<close> stands for \<open>undefined\<close>), or \<open>None\<close>
  for \<open>null\<close>.
\<close>

type_synonym regexp = "regex \<times> flags"

fun exec_from :: "regexp \<Rightarrow> nat \<Rightarrow> jsstring \<Rightarrow> captures option" where
  "exec_from re p [] =
     (case mtch (snd re) [Re (fst re)] p [] [] of
        Some (s', m) \<Rightarrow> Some m
      | None \<Rightarrow> None)"
| "exec_from re p (x # xs) =
     (case mtch (snd re) [Re (fst re)] p (x # xs) [] of
        Some (s', m) \<Rightarrow> Some m
      | None \<Rightarrow> exec_from re (Suc p) xs)"

definition str_match :: "jsstring \<Rightarrow> regexp \<Rightarrow> captures option" where
  "str_match s re = exec_from re 0 s"

text \<open>
  \<open>String.prototype.replace\<close> with a regular expression that has the \<open>g\<close> flag: every
  match, found from left to right, is replaced; after an empty match the search moves on
  by one code unit, which is copied. The replacement is a function of the captures.
\<close>

function replace_from :: "regexp \<Rightarrow> (captures \<Rightarrow> jsstring) \<Rightarrow> nat \<Rightarrow> jsstring \<Rightarrow> jsstring" where
  "replace_from re sub p s =
     (case mtch (snd re) [Re (fst re)] p s [] of
        Some (s', m) \<Rightarrow>
          if length s' < length s
          then sub m @ replace_from re sub (p + (length s - length s')) s'
          else sub m @ (case s of [] \<Rightarrow> [] | x # xs \<Rightarrow> x # replace_from re sub (Suc p) xs)
      | None \<Rightarrow> (case s of [] \<Rightarrow> [] | x # xs \<Rightarrow> x # replace_from re sub (Suc p) xs))"
  by pat_completeness auto
termination
  by (relation "measure (\<lambda>(re, sub, p, s). length s)") auto

definition str_replace :: "jsstring \<Rightarrow> regexp \<Rightarrow> (captures \<Rightarrow> jsstring) \<Rightarrow> jsstring" where
  "str_replace s re sub = replace_from re sub 0 s"

text \<open>The replacement strings of the source: \<open>''\<close> and \<open>'$1'\<close>.\<close>

definition sub_empty :: "captures \<Rightarrow> jsstring" where
  "sub_empty m = []"

definition sub_group1 :: "captures \<Rightarrow> jsstring" where
  "sub_group1 m = (case map_of m 1 of Some g \<Rightarrow> g | None \<Rightarrow> [])"

section \<open>Confidence bands\<close>

text \<open>
  A JavaScript number is a double. The two functions only compare their argument with a
  literal, and comparison of doubles is exact: a finite double is the real number it
  denotes, a comparison with \<open>NaN\<close> is false. The literals are the doubles nearest to
  the decimals written in the source.
\<close>

datatype jsnum = NaN | NegInf | Num real | PosInf

fun js_ge :: "jsnum \<Rightarrow> jsnum \<Rightarrow> bool" where
  "js_ge NaN y = False"
| "js_ge x NaN = False"
| "js_ge PosInf y = True"
| "js_ge x NegInf = True"
| "js_ge NegInf y = False"
| "js_ge x PosInf = False"
| "js_ge (Num a) (Num b) = (b \<le> a)"

fun js_lt :: "jsnum \<Rightarrow> jsnum \<Rightarrow> bool" where
  "js_lt NaN y = False"
| "js_lt x NaN = False"
| "js_lt PosInf y = False"
| "js_lt x NegInf = False"
| "js_lt NegInf y = True"
| "js_lt x PosInf = True"
| "js_lt (Num a) (Num b) = (a < b)"

definition lit_0_7 :: jsnum where "lit_0_7 = Num (3152519739159347 / 2 ^ 52)"
definition lit_0_4 :: jsnum where "lit_0_4 = Num (3602879701896397 / 2 ^ 53)"
definition lit_0_8 :: jsnum where "lit_0_8 = Num (3602879701896397 / 2 ^ 52)"
definition lit_0_6 :: jsnum where "lit_0_6 = Num (5404319552844595 / 2 ^ 53)"
definition lit_0_75 :: jsnum where "lit_0_75 = Num (3 / 4)"
definition lit_0_5 :: jsnum where "lit_0_5 = Num (1 / 2)"
definition lit_0_1 :: jsnum where "lit_0_1 = Num (3602879701896397 / 2 ^ 55)"

definition getConfidenceClass :: "jsnum \<Rightarrow> jsstring" where
  "getConfidenceClass score =
     (if js_ge score lit_0_7 then js ''high''
      else if js_ge score lit_0_4 then js ''medium''
      else js ''low'')"

definition getFuzzyClass :: "jsnum \<Rightarrow> jsstring" where
  "getFuzzyClass score =
     (if js_ge score lit_0_8 then js ''high''
      else if js_ge score lit_0_6 then js ''medium''
      else js ''low'')"

section \<open>The splitter\<close>

definition flags_s :: flags where
  "flags_s = \<lparr>ignoreCase = False, dotAll = True\<rparr>"

definition flags_si :: flags where
  "flags_si = \<lparr>ignoreCase = True, dotAll = True\<rparr>"

definition flags_g :: flags where
  "flags_g = \<lparr>ignoreCase = False, dotAll = False\<rparr>"

text \<open>
  The two shapes of \<open>commentPatterns\<close>: \<^verbatim>\<open>^(P.*?(?:\.|:))\s*(.*)\<close> for a preamble \<open>P\<close>,
  with two groups, and \<^verbatim>\<open>^H\s*:?\s*(.*)\<close> for a header \<open>H\<close>, with one.
\<close>

definition preamble :: "regex \<Rightarrow> regex" where
  "preamble P =
     Cat [Bol,
          Group 1 (Cat [P, Lazy Any, Alt (Lits (js ''.'')) (Lits (js '':''))]),
          Star Space,
          Group 2 (Star Any)]"

definition header :: "regex \<Rightarrow> regex" where
  "header H =
     Cat [Bol, H, Star Space, Opt (Lits (js '':'')), Star Space, Group 1 (Star Any)]"

text \<open>\<^verbatim>\<open>(?:die|eine) (?:umfassende )?Antwort\<close> and its English counterpart.\<close>

definition die_eine_Antwort :: "string \<Rightarrow> string \<Rightarrow> regex" where
  "die_eine_Antwort a b =
     Cat [Alt (Lits (js a)) (Lits (js b)), Lits (js '' ''),
          Opt (Lits (js ''umfassende '')), Lits (js ''Antwort'')]"

definition the_a_answer :: "string \<Rightarrow> string \<Rightarrow> regex" where
  "the_a_answer a b =
     Cat [Alt (Lits (js a)) (Lits (js b)), Lits (js '' ''),
          Opt (Lits (js ''comprehensive '')), Lits (js ''answer'')]"

definition apostrophe :: string where
  "apostrophe = [char_of (0x27 :: nat)]"

definition commentPatterns :: "regexp list" where
  "commentPatterns =
    [(preamble (Lits (js ''Basierend auf'')), flags_s),
     (preamble (Lits (js ''Aufgrund'')), flags_s),
     (preamble (Lits (js ''Laut'')), flags_s),
     (preamble (Lits (js (''Gem'' @ ae @ sz))), flags_s),
     (preamble (Lits (js ''Entsprechend'')), flags_s),
     (preamble (Lits (js (''Unter Ber'' @ ue @ ''cksichtigung''))), flags_s),
     (preamble (Lits (js ''Nach'')), flags_s),
     (preamble (Lits (js ''Anhand'')), flags_s),
     (preamble (Lits (js ''Durch'')), flags_s),
     (preamble (Lits (js ''Mit Blick auf'')), flags_s),

     (preamble (Lits (js ''Based on'')), flags_s),
     (preamble (Lits (js ''According to'')), flags_s),
     (preamble (Lits (js ''From the historical data'')), flags_s),
     (preamble (Lits (js ''Our previous experience shows'')), flags_s),
     (preamble (Lits (js ''The sources indicate'')), flags_s),
     (preamble (Lits (js ''Looking at similar projects'')), flags_s),

     (preamble (Cat [Lits (js ''Hier ist ''), die_eine_Antwort ''die'' ''eine'']), flags_si),
     (preamble (Cat [Lits (js ''Hier finden Sie ''), die_eine_Antwort ''die'' ''eine'']), flags_si),
     (preamble (Cat [Lits (js ''Ich erstelle ''), die_eine_Antwort ''eine'' ''die'']), flags_si),
     (preamble (Cat [Lits (js ''Dies ist ''), die_eine_Antwort ''die'' ''eine'']), flags_si),
     (preamble (Lits (js ''Folgende Antwort'')), flags_si),

     (preamble (Cat [Lits (js ''Here is ''), the_a_answer ''the'' ''a'']), flags_si),
     (preamble (Cat [Lits (js (''Here'' @ apostrophe @ ''s '')), the_a_answer ''the'' ''a'']), flags_si),
     (preamble (Cat [Lits (js (''I'' @ apostrophe @ ''ll provide '')), the_a_answer ''a'' ''the'']), flags_si),
     (preamble (Cat [Lits (js ''This is ''), the_a_answer ''the'' ''a'']), flags_si),

     (header (Lits (js ''**Antwort**'')), flags_s),
     (header (Lits (js (''**L'' @ oe @ ''sung**''))), flags_s),
     (header (Lits (js ''Antwort'')), flags_s),
     (header (Lits (js (''L'' @ oe @ ''sung''))), flags_s),

     (header (Lits (js ''**Answer**'')), flags_s),
     (header (Lits (js ''**Response**'')), flags_s),
     (header (Lits (js ''Answer'')), flags_s),
     (header (Lits (js ''Response'')), flags_s)]"

text \<open>\<^verbatim>\<open>/\*\*/g\<close>, \<^verbatim>\<open>/^\*\*.*?\*\*\s*:?\s*/g\<close> and \<^verbatim>\<open>/\*\*(.*?)\*\*/g\<close>.\<close>

definition re_stars :: regexp where
  "re_stars = (Lits (js ''**''), flags_g)"

definition re_label :: regexp where
  "re_label =
     (Cat [Bol, Lits (js ''**''), Lazy Any, Lits (js ''**''),
           Star Space, Opt (Lits (js '':'')), Star Space], flags_g)"

definition re_bold :: regexp where
  "re_bold = (Cat [Lits (js ''**''), Group 1 (Lazy Any), Lits (js ''**'')], flags_g)"

datatype js_error = TypeError

record split_result =
  comment :: jsstring
  answer :: jsstring

text \<open>A string is truthy when it is neither \<open>undefined\<close> nor empty.\<close>

fun truthy :: "jsstring option \<Rightarrow> bool" where
  "truthy None = False"
| "truthy (Some s) = (s \<noteq> [])"

text \<open>
  The body of the \<open>if (match)\<close> of the loop: the comments after it and the new working
  text. \<open>.trim()\<close> on \<open>undefined\<close> throws a TypeError.
\<close>

definition on_match :: "captures \<Rightarrow> jsstring list \<Rightarrow> js_error + (jsstring \<times> jsstring list)" where
  "on_match m comments =
     (let comments' =
        (case map_of m 1 of
           None \<Rightarrow> comments
         | Some m1 \<Rightarrow>
             if m1 \<noteq> []
             then (let cleanComment = trim (str_replace m1 re_stars sub_empty)
                   in if cleanComment \<noteq> [] \<and> length cleanComment > 0
                      then comments @ [cleanComment] else comments)
             else comments)
      in if truthy (map_of m 2)
         then (case map_of m 2 of
                 Some m2 \<Rightarrow> Inr (trim m2, comments')
               | None \<Rightarrow> Inl TypeError)
         else (case map_of m 1 of
                 Some m1 \<Rightarrow> Inr (trim m1, comments')
               | None \<Rightarrow> Inl TypeError))"

text \<open>The loop over the patterns, left by \<open>break\<close> at the first match.\<close>

fun for_patterns ::
  "regexp list \<Rightarrow> jsstring \<Rightarrow> jsstring list \<Rightarrow> js_error + (jsstring \<times> jsstring list)" where
  "for_patterns [] workingText comments = Inr (workingText, comments)"
| "for_patterns (pattern # ps) workingText comments =
     (case str_match workingText pattern of
        Some m \<Rightarrow> on_match m comments
      | None \<Rightarrow> for_patterns ps workingText comments)"

definition cleanAnswer :: "jsstring \<Rightarrow> jsstring" where
  "cleanAnswer workingText =
     trim (str_replace (str_replace workingText re_label sub_empty) re_bold sub_group1)"

definition split_with :: "regexp list \<Rightarrow> jsstring \<Rightarrow> js_error + split_result" where
  "split_with patterns fullAnswer =
     (case for_patterns patterns fullAnswer [] of
        Inl e \<Rightarrow> Inl e
      | Inr (workingText, comments) \<Rightarrow>
          Inr \<lparr>comment = join (js '' '') comments, answer = cleanAnswer workingText\<rparr>)"

definition separateCommentAndAnswer :: "jsstring \<Rightarrow> js_error + split_result" where
  "separateCommentAndAnswer fullAnswer = split_with commentPatterns fullAnswer"

section \<open>Sources for the Excel export\<close>

record source =
  question_text :: jsstring

text \<open>\<open>substring\<close> with two indices, and the decimal digits of an array index.\<close>

definition substring :: "jsstring \<Rightarrow> nat \<Rightarrow> nat \<Rightarrow> jsstring" where
  "substring s a b = take (max a b - min a b) (drop (min a b) s)"

fun number_to_string :: "nat \<Rightarrow> jsstring" where
  "number_to_string n =
     (if n < 10 then [of_nat (48 + n)]
      else number_to_string (n div 10) @ [of_nat (48 + n mod 10)])"

definition source_entry :: "nat \<Rightarrow> 'a source_scheme \<Rightarrow> jsstring" where
  "source_entry index source =
     js ''Source '' @ number_to_string (index + 1) @ js '': '' @
     substring (question_text source) 0 100 @
     (if length (question_text source) > 100 then js ''...'' else js [])"

definition formatSourcesForExcel :: "'a source_scheme list option \<Rightarrow> jsstring" where
  "formatSourcesForExcel sources =
     (case sources of
        None \<Rightarrow> js ''Keine Quellen''
      | Some xs \<Rightarrow>
          if length xs = 0 then js ''Keine Quellen''
          else join (js '' | '') (map (\<lambda>(index, source). source_entry index source) (enumerate 0 xs)))"

text \<open>The number that a string of decimal digits denotes.\<close>

definition decimal_value :: "jsstring \<Rightarrow> nat" where
  "decimal_value s = foldl (\<lambda>a d. 10 * a + (unat d - 48)) 0 s"

section \<open>The clean-up in plain recursion\<close>

text \<open>
  What the three \<open>replace\<close> calls of the splitter do, written without regular
  expressions. \<open>find_close\<close> looks for the first \<open>**\<close> on the current line and returns
  the text before it and the text after it; \<open>span_at\<close> recognises a span \<open>**t**\<close> at
  the start of a string.
\<close>

fun find_close :: "jsstring \<Rightarrow> (jsstring \<times> jsstring) option" where
  "find_close (a # b # r) =
     (if [a, b] = js ''**'' then Some ([], r)
      else if is_line_terminator a then None
      else map_option (\<lambda>(u, v). (a # u, v)) (find_close (b # r)))"
| "find_close [a] = None"
| "find_close [] = None"

fun span_at :: "jsstring \<Rightarrow> (jsstring \<times> jsstring) option" where
  "span_at (a # b # t) = (if [a, b] = js ''**'' then find_close t else None)"
| "span_at [a] = None"
| "span_at [] = None"

lemma find_close_length: "find_close s = Some (u, v) \<Longrightarrow> length u + length v + 2 = length s"
  by (induction s arbitrary: u rule: find_close.induct) (auto split: if_splits)

lemma span_at_length: "span_at s = Some (u, v) \<Longrightarrow> length u + length v + 4 = length s"
  by (cases s rule: span_at.cases) (auto split: if_splits dest: find_close_length)

function unbold :: "jsstring \<Rightarrow> jsstring" where
  "unbold s =
     (case span_at s of
        Some (u, v) \<Rightarrow> u @ unbold v
      | None \<Rightarrow> (case s of [] \<Rightarrow> [] | x # xs \<Rightarrow> x # unbold xs))"
  by pat_completeness auto
termination
  by (relation "measure length") (auto dest: span_at_length)

fun skip_colon :: "jsstring \<Rightarrow> jsstring" where
  "skip_colon (x # xs) = (if [x] = js '':'' then xs else x # xs)"
| "skip_colon [] = []"

definition strip_leading_span :: "jsstring \<Rightarrow> jsstring" where
  "strip_leading_span s =
     (case span_at s of
        Some (u, v) \<Rightarrow> dropWhile is_space (skip_colon (dropWhile is_space v))
      | None \<Rightarrow> s)"

fun remove_stars :: "jsstring \<Rightarrow> jsstring" where
  "remove_stars (a # b # r) =
     (if [a, b] = js ''**'' then remove_stars r else a # remove_stars (b # r))"
| "remove_stars [a] = [a]"
| "remove_stars [] = []"

text \<open>A string has a span when \<open>**t**\<close>, with \<open>t\<close> on one line, occurs in it.\<close>

fun has_span :: "jsstring \<Rightarrow> bool" where
  "has_span [] = False"
| "has_span (x # xs) = (span_at (x # xs) \<noteq> None \<or> has_span xs)"

section \<open>Static facts about a pattern\<close>

text \<open>
  \<open>first_lit\<close> is the literal code unit with which every match of a regular expression
  must begin, when its syntax shows one; \<open>starts_solid\<close> holds of \<open>^\<close> followed by such
  a literal that is not white space, under either setting of the \<open>i\<close> flag.
  \<open>sets_group n\<close> holds when the syntax shows that every match captures group \<open>n\<close>.
\<close>

fun first_lit :: "regex \<Rightarrow> cu option" where
  "first_lit (Lits (a # as)) = Some a"
| "first_lit (Cat (r # rs)) = first_lit r"
| "first_lit (Group n r) = first_lit r"
| "first_lit r = None"

fun sets_group :: "nat \<Rightarrow> regex \<Rightarrow> bool" where
  "sets_group n (Group m r) = (m = n \<or> sets_group n r)"
| "sets_group n (Cat rs) = list_ex (sets_group n) rs"
| "sets_group n (Alt r1 r2) = (sets_group n r1 \<and> sets_group n r2)"
| "sets_group n r = False"

fun item_sets :: "nat \<Rightarrow> item \<Rightarrow> bool" where
  "item_sets n (Re r) = sets_group n r"
| "item_sets n (Close m s0) = (m = n)"

fun starts_solid :: "regex \<Rightarrow> bool" where
  "starts_solid (Cat (Bol # r # rs)) =
     (case first_lit r of
        Some a \<Rightarrow> \<not> is_space a \<and> \<not> is_space (canon a)
      | None \<Rightarrow> False)"
| "starts_solid r = False"

section \<open>The matcher on the regular expressions of the clean-up\<close>

declare mtch.simps [simp del]

lemmas mtch_step = mtch.simps(1) mtch.simps(2) mtch.simps(3) mtch.simps(4) mtch.simps(5)
  mtch.simps(6) mtch.simps(7) mtch.simps(8) mtch.simps(9) mtch.simps(12)

lemma lit_ok_g [simp]: "lit_ok flags_g a x = (x = a)"
  by (simp add: lit_ok_def flags_g_def)

lemma flags_g_sel [simp]: "dotAll flags_g = False" "ignoreCase flags_g = False"
  by (simp_all add: flags_g_def)

lemma accepts_space: "accepts f Space = is_space"
  by (rule ext) simp

lemma two_stars [simp]: "([a, b] = js ''**'') = (a = 0x2A \<and> b = 0x2A)"
  by (simp add: js_def)

lemma mtch_stars:
  "mtch flags_g (Re (Lits (js ''**'')) # k) p s c =
     (case s of
        a # b # r \<Rightarrow> if [a, b] = js ''**'' then mtch flags_g k (Suc (Suc p)) r c else None
      | _ \<Rightarrow> None)"
  by (simp add: js_def mtch_step split: list.splits)

lemma star_greedy:
  "(\<And>p s. mtch f k p s c \<noteq> None) \<Longrightarrow>
   mtch f (Re (Star a) # k) p s c =
     mtch f k (p + length (takeWhile (accepts f a) s)) (dropWhile (accepts f a) s) c"
proof (induction s arbitrary: p)
  case Nil
  show ?case by (subst mtch.simps(10)) simp
next
  case (Cons x xs)
  show ?case
  proof (cases "accepts f a x")
    case True
    have "mtch f (Re (Star a) # k) (Suc p) xs c \<noteq> None"
      using Cons.IH [OF Cons.prems, of "Suc p"] Cons.prems by simp
    then show ?thesis
      using True Cons.IH [OF Cons.prems, of "Suc p"]
      by (subst mtch.simps(10)) auto
  next
    case False
    then show ?thesis by (subst mtch.simps(10)) simp
  qed
qed

lemma star_last: "mtch f [Re (Star a)] p s c = Some (dropWhile (accepts f a) s, c)"
  by (subst star_greedy) (simp_all add: mtch_step)

lemma star_space_last: "mtch f [Re (Star Space)] p s c = Some (dropWhile is_space s, c)"
  using star_last [of f Space p s c] by (simp add: accepts_space)

lemma opt_colon_star:
  "mtch flags_g [Re (Opt (Lits (js '':''))), Re (Star Space)] p s c =
     Some (dropWhile is_space (skip_colon s), c)"
  by (cases s) (simp_all add: js_def mtch_step star_space_last)

lemma label_tail:
  "mtch flags_g [Re (Star Space), Re (Opt (Lits (js '':''))), Re (Star Space)] p s c =
     Some (dropWhile is_space (skip_colon (dropWhile is_space s)), c)"
proof -
  have "mtch flags_g [Re (Star Space), Re (Opt (Lits (js '':''))), Re (Star Space)] p s c =
     mtch flags_g [Re (Opt (Lits (js '':''))), Re (Star Space)]
       (p + length (takeWhile (accepts flags_g Space) s)) (dropWhile (accepts flags_g Space) s) c"
    by (rule star_greedy) (simp only: opt_colon_star, simp)
  also have "\<dots> = Some (dropWhile is_space (skip_colon (dropWhile (accepts flags_g Space) s)), c)"
    by (rule opt_colon_star)
  finally show ?thesis by (simp add: accepts_space)
qed

lemma lazy_label:
  "mtch flags_g [Re (Lazy Any), Re (Lits (js ''**'')), Re (Star Space),
       Re (Opt (Lits (js '':''))), Re (Star Space)] p s c =
     map_option (\<lambda>(u, v). (dropWhile is_space (skip_colon (dropWhile is_space v)), c)) (find_close s)"
proof (induction s arbitrary: p rule: find_close.induct)
  case (1 a b r)
  show ?case
    by (subst mtch.simps(11))
       (simp add: mtch_stars label_tail 1 option.map_comp comp_def split_def)
next
  case (2 a)
  show ?case by (subst mtch.simps(11), simp add: mtch_stars, subst mtch.simps(11), simp add: mtch_stars)
next
  case 3
  show ?case by (subst mtch.simps(11)) (simp add: mtch_stars)
qed

lemma lazy_bold:
  "mtch flags_g [Re (Lazy Any), Close 1 (pre @ s), Re (Lits (js ''**''))] p s c =
     map_option (\<lambda>(u, v). (v, (1, pre @ u) # c)) (find_close s)"
proof (induction s arbitrary: p pre rule: find_close.induct)
  case (1 a b r)
  have "mtch flags_g [Re (Lazy Any), Close 1 ((pre @ [a]) @ b # r), Re (Lits (js ''**''))] (Suc p) (b # r) c =
     map_option (\<lambda>(u, v). (v, (1, (pre @ [a]) @ u) # c)) (find_close (b # r))"
    if "[a, b] \<noteq> js ''**''" "\<not> is_line_terminator a"
    using 1 [OF that] .
  then show ?case
    by (subst mtch.simps(11))
       (simp add: mtch_stars mtch_step option.map_comp comp_def split_def)
next
  case (2 a)
  show ?case
    by (subst mtch.simps(11), simp add: mtch_stars mtch_step, subst mtch.simps(11),
        simp add: mtch_stars mtch_step)
next
  case 3
  show ?case by (subst mtch.simps(11)) (simp add: mtch_stars mtch_step)
qed

lemma mtch_bold:
  "mtch flags_g [Re (fst re_bold)] p s [] = map_option (\<lambda>(u, v). (v, [(1, u)])) (span_at s)"
proof (cases s rule: span_at.cases)
  case (1 a b t)
  then show ?thesis
    using lazy_bold [of "[]" t "Suc (Suc p)" "[]"]
    by (simp add: re_bold_def mtch_stars mtch_step)
qed (simp_all add: re_bold_def mtch_stars mtch_step)

lemma mtch_label:
  "mtch flags_g [Re (fst re_label)] p s [] =
     (if p = 0
      then map_option (\<lambda>(u, v). (dropWhile is_space (skip_colon (dropWhile is_space v)), [])) (span_at s)
      else None)"
proof (cases s rule: span_at.cases)
  case (1 a b t)
  then show ?thesis
    by (simp add: re_label_def mtch_stars mtch_step lazy_label)
qed (simp_all add: re_label_def mtch_stars mtch_step)

lemma mtch_re_stars:
  "mtch flags_g [Re (fst re_stars)] p s [] =
     (case s of a # b # r \<Rightarrow> if [a, b] = js ''**'' then Some (r, []) else None | _ \<Rightarrow> None)"
  by (simp add: re_stars_def mtch_stars mtch_step split: list.splits)

section \<open>The replace calls as plain recursion\<close>

declare replace_from.simps [simp del] unbold.simps [simp del]

lemma snd_re [simp]: "snd re_bold = flags_g" "snd re_label = flags_g" "snd re_stars = flags_g"
  by (simp_all add: re_bold_def re_label_def re_stars_def)

lemma unbold_None:
  "span_at s = None \<Longrightarrow> unbold s = (case s of [] \<Rightarrow> [] | x # xs \<Rightarrow> x # unbold xs)"
  by (subst unbold.simps) simp

lemma unbold_Some: "span_at s = Some (u, v) \<Longrightarrow> unbold s = u @ unbold v"
  by (subst unbold.simps) simp

lemma replace_None:
  "mtch (snd re) [Re (fst re)] p s [] = None \<Longrightarrow>
   replace_from re sub p s = (case s of [] \<Rightarrow> [] | x # xs \<Rightarrow> x # replace_from re sub (Suc p) xs)"
  by (subst replace_from.simps) simp

lemma replace_Some:
  "mtch (snd re) [Re (fst re)] p s [] = Some (s', m) \<Longrightarrow> length s' < length s \<Longrightarrow>
   replace_from re sub p s = sub m @ replace_from re sub (p + (length s - length s')) s'"
  by (subst replace_from.simps) simp

lemma replace_bold: "replace_from re_bold sub_group1 p s = unbold s"
proof (induction s arbitrary: p rule: unbold.induct)
  case (1 s)
  show ?case
  proof (cases "span_at s")
    case None
    then have m: "mtch (snd re_bold) [Re (fst re_bold)] p s [] = None"
      by (simp add: mtch_bold)
    show ?thesis
    proof (cases s)
      case Nil
      then show ?thesis using None m by (simp add: replace_None unbold_None)
    next
      case (Cons x xs)
      then show ?thesis
        using None m 1(1) [OF None Cons, of "Suc p"]
        by (simp add: replace_None unbold_None)
    qed
  next
    case (Some uv)
    obtain u v where uv: "uv = (u, v)" by (cases uv)
    have sp: "span_at s = Some (u, v)" using Some uv by simp
    have len: "length v < length s"
      using span_at_length [OF sp] by simp
    have m: "mtch (snd re_bold) [Re (fst re_bold)] p s [] = Some (v, [(1, u)])"
      by (simp add: mtch_bold sp)
    have ih: "replace_from re_bold sub_group1 (p + (length s - length v)) v = unbold v"
      by (rule 1(2) [OF Some uv [symmetric]])
    have "replace_from re_bold sub_group1 p s =
        sub_group1 [(1, u)] @ replace_from re_bold sub_group1 (p + (length s - length v)) v"
      by (rule replace_Some [OF m len])
    also have "\<dots> = u @ unbold v"
      by (simp add: ih sub_group1_def)
    finally show ?thesis by (simp add: unbold_Some [OF sp])
  qed
qed

lemma replace_label_later: "0 < p \<Longrightarrow> replace_from re_label sub_empty p s = s"
proof (induction s arbitrary: p)
  case Nil
  then have "mtch (snd re_label) [Re (fst re_label)] p [] [] = None"
    by (simp add: mtch_label)
  then show ?case by (simp add: replace_None)
next
  case (Cons x xs)
  then have "mtch (snd re_label) [Re (fst re_label)] p (x # xs) [] = None"
    by (simp add: mtch_label)
  then show ?case using Cons.IH [of "Suc p"] by (simp add: replace_None)
qed

lemma skip_colon_length: "length (skip_colon s) \<le> length s"
  by (cases s) simp_all

lemma label_rest_length:
  "length (dropWhile is_space (skip_colon (dropWhile is_space v))) \<le> length v"
  by (meson length_dropWhile_le skip_colon_length order_trans)

lemma replace_label: "replace_from re_label sub_empty 0 s = strip_leading_span s"
proof (cases "span_at s")
  case None
  then have m: "mtch (snd re_label) [Re (fst re_label)] 0 s [] = None"
    by (simp add: mtch_label)
  show ?thesis
    using None
    by (simp add: replace_None [OF m] strip_leading_span_def replace_label_later split: list.splits)
next
  case (Some uv)
  obtain u v where uv: "uv = (u, v)" by (cases uv)
  have len: "length (dropWhile is_space (skip_colon (dropWhile is_space v))) < length s"
    using Some uv span_at_length [of s u v] label_rest_length [of v] by simp
  have m: "mtch (snd re_label) [Re (fst re_label)] 0 s [] =
      Some (dropWhile is_space (skip_colon (dropWhile is_space v)), [])"
    using Some uv by (simp add: mtch_label)
  show ?thesis
    using Some uv len
    by (simp add: replace_Some [OF m len] strip_leading_span_def replace_label_later sub_empty_def)
qed

lemma replace_stars: "replace_from re_stars sub_empty p s = remove_stars s"
proof (induction s arbitrary: p rule: remove_stars.induct)
  case (1 a b r)
  show ?case
  proof (cases "[a, b] = js ''**''")
    case True
    then have m: "mtch (snd re_stars) [Re (fst re_stars)] p (a # b # r) [] = Some (r, [])"
      by (simp add: mtch_re_stars)
    have "replace_from re_stars sub_empty p (a # b # r) =
        sub_empty [] @ replace_from re_stars sub_empty (p + (length (a # b # r) - length r)) r"
      by (rule replace_Some [OF m]) simp
    also have "\<dots> = replace_from re_stars sub_empty (p + (length (a # b # r) - length r)) r"
      by (simp add: sub_empty_def)
    also have "\<dots> = remove_stars r"
      by (rule 1(1) [OF True])
    finally show ?thesis using True by simp
  next
    case False
    then have m: "mtch (snd re_stars) [Re (fst re_stars)] p (a # b # r) [] = None"
      by (auto simp add: mtch_re_stars)
    show ?thesis using False 1(2)
      by (auto simp add: replace_None [OF m])
  qed
next
  case (2 a)
  have m: "mtch (snd re_stars) [Re (fst re_stars)] p [a] [] = None"
    by (simp add: mtch_re_stars)
  have n: "mtch (snd re_stars) [Re (fst re_stars)] (Suc p) [] [] = None"
    by (simp add: mtch_re_stars)
  show ?case by (simp add: replace_None [OF m] replace_None [OF n])
next
  case 3
  have m: "mtch (snd re_stars) [Re (fst re_stars)] p [] [] = None"
    by (simp add: mtch_re_stars)
  show ?case by (simp add: replace_None [OF m])
qed

lemma cleanAnswer_eq: "cleanAnswer w = trim (unbold (strip_leading_span w))"
  by (simp add: cleanAnswer_def str_replace_def replace_label replace_bold)

section \<open>No span is left, and the clean-up is idempotent\<close>

lemma span_at_not_star: "x \<noteq> 0x2A \<Longrightarrow> span_at (x # xs) = None"
  by (cases xs) simp_all

lemma star_not_lt: "\<not> is_line_terminator 0x2A"
  by (simp add: is_line_terminator_def)

lemma lt_not_star: "is_line_terminator x \<Longrightarrow> x \<noteq> 0x2A"
  using star_not_lt by auto

lemma unbold_Nil [simp]: "unbold [] = []"
  by (simp add: unbold_None)

lemma unbold_hd: "x \<noteq> 0x2A \<Longrightarrow> unbold (x # xs) = x # unbold xs"
  by (simp add: unbold_None span_at_not_star)

lemma unbold_single [simp]: "unbold [x] = [x]"
  by (simp add: unbold_None)

lemma find_close_hd:
  "find_close (b # r) = Some (u, v) \<Longrightarrow> b \<noteq> 0x2A \<Longrightarrow> \<exists>u'. u = b # u'"
  by (cases r) (auto split: if_splits)

lemma find_close_tl:
  "find_close (x # t) = None \<Longrightarrow> \<not> is_line_terminator x \<Longrightarrow> find_close t = None"
  by (cases t) (auto split: if_splits)

lemma find_close_unbold: "find_close t = None \<Longrightarrow> find_close (unbold t) = None"
proof (induction t rule: find_close.induct)
  case (1 a b r)
  from 1(2) have ns: "\<not> (a = 0x2A \<and> b = 0x2A)" by (auto split: if_splits)
  then have sp: "span_at (a # b # r) = None" by auto
  then have ub: "unbold (a # b # r) = a # unbold (b # r)" by (simp add: unbold_None)
  show ?case
  proof (cases "is_line_terminator a")
    case True
    then show ?thesis using ub lt_not_star [OF True]
      by (cases "unbold (b # r)") simp_all
  next
    case False
    then have fc: "find_close (b # r) = None" using 1(2) ns by (auto split: if_splits)
    have ih: "find_close (unbold (b # r)) = None"
      using 1(1) ns False fc by simp
    show ?thesis
    proof (cases "a = 0x2A")
      case True
      then have "b \<noteq> 0x2A" using ns by simp
      then have "unbold (b # r) = b # unbold r" by (rule unbold_hd)
      then show ?thesis using ub ih False \<open>b \<noteq> 0x2A\<close> by simp
    next
      case na: False
      then show ?thesis using ub ih False
        by (cases "unbold (b # r)") simp_all
    qed
  qed
qed simp_all

lemma find_close_calm:
  "find_close t = Some (u, v) \<Longrightarrow> \<not> has_span w \<Longrightarrow> \<not> has_span (u @ w)"
proof (induction t arbitrary: u rule: find_close.induct)
  case (1 a b r)
  show ?case
  proof (cases "[a, b] = js ''**''")
    case True
    then show ?thesis using 1(2,3) by simp
  next
    case False
    then have nl: "\<not> is_line_terminator a" using 1(2) by (auto split: if_splits)
    from 1(2) False nl obtain u' where u': "find_close (b # r) = Some (u', v)" "u = a # u'"
      by (auto split: if_splits)
    have ih: "\<not> has_span (u' @ w)" using 1(1) [OF False nl u'(1) 1(3)] .
    have "span_at (a # u' @ w) = None"
    proof (cases "a = 0x2A")
      case True
      then have "b \<noteq> 0x2A" using False by simp
      from find_close_hd [OF u'(1) this] obtain u'' where "u' = b # u''" by blast
      then show ?thesis using \<open>b \<noteq> 0x2A\<close> by simp
    next
      case False
      then show ?thesis by (rule span_at_not_star)
    qed
    then show ?thesis using ih u'(2) by simp
  qed
qed simp_all

lemma span_at_calm:
  "span_at s = Some (u, v) \<Longrightarrow> \<not> has_span w \<Longrightarrow> \<not> has_span (u @ w)"
  by (cases s rule: span_at.cases) (auto split: if_splits dest: find_close_calm)

lemma unbold_no_span: "\<not> has_span (unbold s)"
proof (induction s rule: unbold.induct)
  case (1 s)
  show ?case
  proof (cases "span_at s")
    case (Some uv)
    obtain u v where uv: "uv = (u, v)" by (cases uv)
    have sp: "span_at s = Some (u, v)" using Some uv by simp
    have "\<not> has_span (unbold v)" by (rule 1(2) [OF Some uv [symmetric]])
    then show ?thesis using span_at_calm [OF sp] by (simp add: unbold_Some [OF sp])
  next
    case None
    show ?thesis
    proof (cases s)
      case Nil
      then show ?thesis by simp
    next
      case (Cons c cs)
      have ih: "\<not> has_span (unbold cs)" by (rule 1(1) [OF None Cons])
      have ub: "unbold s = c # unbold cs" using None Cons by (simp add: unbold_None)
      have "span_at (c # unbold cs) = None"
      proof (cases "c = 0x2A")
        case False
        then show ?thesis by (rule span_at_not_star)
      next
        case c: True
        show ?thesis
        proof (cases cs)
          case Nil
          then show ?thesis by simp
        next
          case cs: (Cons d t)
          show ?thesis
          proof (cases "d = 0x2A")
            case False
            then show ?thesis using cs by (simp add: unbold_hd)
          next
            case d: True
            have fc: "find_close t = None" using None Cons cs c d by simp
            have "span_at cs = None"
            proof (cases t)
              case Nil
              then show ?thesis using cs by simp
            next
              case t: (Cons e t')
              show ?thesis
              proof (cases "e = 0x2A")
                case False
                then show ?thesis using cs t by simp
              next
                case True
                then have "find_close t' = None"
                  using fc t find_close_tl [of e t'] star_not_lt by simp
                then show ?thesis using cs t d True by simp
              qed
            qed
            then have "unbold cs = d # unbold t" using cs by (simp add: unbold_None)
            then show ?thesis using c d find_close_unbold [OF fc] by simp
          qed
        qed
      qed
      then show ?thesis using ih ub by simp
    qed
  qed
qed

lemma no_span_at: "\<not> has_span t \<Longrightarrow> span_at t = None"
proof (cases t)
  case Nil
  then show ?thesis by simp
next
  case (Cons x xs)
  assume "\<not> has_span t"
  then show ?thesis unfolding Cons by (cases "span_at (x # xs)") simp_all
qed

lemma no_span_strip: "\<not> has_span t \<Longrightarrow> strip_leading_span t = t"
  by (simp add: strip_leading_span_def no_span_at)

lemma no_span_unbold: "\<not> has_span t \<Longrightarrow> unbold t = t"
proof (induction t)
  case Nil
  show ?case by simp
next
  case (Cons x xs)
  have "span_at (x # xs) = None" using Cons.prems by (rule no_span_at)
  moreover have "unbold xs = xs" using Cons by simp
  ultimately show ?case by (simp add: unbold_None)
qed

lemma has_span_dropWhile: "has_span (dropWhile P t) \<Longrightarrow> has_span t"
  by (induction t) (auto split: if_splits)

lemma find_close_append: "find_close a = Some (u, v) \<Longrightarrow> find_close (a @ b) = Some (u, v @ b)"
  by (induction a arbitrary: u rule: find_close.induct) (auto split: if_splits)

lemma span_at_append: "span_at a = Some (u, v) \<Longrightarrow> span_at (a @ b) = Some (u, v @ b)"
  by (cases a rule: span_at.cases) (auto split: if_splits simp: find_close_append)

lemma has_span_append: "has_span a \<Longrightarrow> has_span (a @ b)"
proof (induction a)
  case Nil
  then show ?case by simp
next
  case (Cons x xs)
  show ?case
  proof (cases "span_at (x # xs)")
    case None
    then show ?thesis using Cons by simp
  next
    case (Some uv)
    then have "span_at ((x # xs) @ b) = Some (fst uv, snd uv @ b)"
      using span_at_append [of "x # xs" "fst uv" "snd uv" b] by simp
    then show ?thesis by simp
  qed
qed

lemma trim_prefix: "rev (dropWhile P (rev t)) @ rev (takeWhile P (rev t)) = t"
proof -
  have "rev (takeWhile P (rev t) @ dropWhile P (rev t)) = t" by simp
  then show ?thesis by (simp only: rev_append)
qed

lemma has_span_trim: "has_span (trim t) \<Longrightarrow> has_span t"
proof -
  assume a: "has_span (trim t)"
  let ?d = "dropWhile is_space t"
  have "has_span (rev (dropWhile is_space (rev ?d)) @ rev (takeWhile is_space (rev ?d)))"
    using a unfolding trim_def by (rule has_span_append)
  then have "has_span ?d" by (simp only: trim_prefix)
  then show ?thesis by (rule has_span_dropWhile)
qed

lemma trim_ends:
  "trim s = [] \<or> (\<not> is_space (hd (trim s)) \<and> \<not> is_space (last (trim s)))"
proof (cases "dropWhile is_space s = []")
  case True
  then have "trim s = []" unfolding trim_def by (simp del: dropWhile_eq_Nil_conv)
  then show ?thesis by simp
next
  case False
  let ?d = "dropWhile is_space s"
  let ?e = "dropWhile is_space (rev ?d)"
  have hd: "\<not> is_space (hd ?d)" using False by (rule hd_dropWhile)
  have "last (rev ?d) = hd ?d" using False by (simp add: last_rev)
  then have "\<not> (\<forall>x\<in>set (rev ?d). is_space x)"
    using hd False by (metis last_in_set rev_is_Nil_conv)
  then have ne: "?e \<noteq> []" by (simp add: dropWhile_eq_Nil_conv)
  then have he: "\<not> is_space (hd ?e)" by (rule hd_dropWhile)
  have "last ?e = last (rev ?d)"
    using ne by (metis takeWhile_dropWhile_id last_appendR)
  then have le: "last ?e = hd ?d" using False by (simp add: last_rev)
  have "hd (rev ?e) = last ?e" using ne by (simp add: hd_rev)
  moreover have "last (rev ?e) = hd ?e" using ne by (simp add: last_rev)
  ultimately show ?thesis using hd he le by (simp add: trim_def)
qed

lemma trim_idem: "trim (trim s) = trim s"
proof (cases "trim s = []")
  case True
  then show ?thesis by (simp add: trim_def [of "[]"])
next
  case False
  then have h: "\<not> is_space (hd (trim s))" and l: "\<not> is_space (last (trim s))"
    using trim_ends [of s] by auto
  have 1: "dropWhile is_space (trim s) = trim s"
    using False h by (cases "trim s") simp_all
  have "dropWhile is_space (rev (trim s)) = rev (trim s)"
    using False l by (cases "rev (trim s)") (simp_all add: last_rev [symmetric] hd_rev)
  then show ?thesis using 1 by (simp add: trim_def [of "trim s"])
qed


section \<open>The patterns of the library\<close>

lemma first_lit_fails:
  "first_lit r = Some a \<Longrightarrow> s = [] \<or> \<not> lit_ok f a (hd s) \<Longrightarrow> mtch f (Re r # k) p s c = None"
proof (induction r arbitrary: k rule: first_lit.induct)
  case (1 a as)
  then show ?case by (cases s) (auto simp: mtch_step)
next
  case (2 r rs)
  then show ?case by (simp add: mtch_step)
next
  case (3 n r)
  then show ?case by (simp add: mtch_step)
qed simp_all

lemma canon_space: "is_space x \<Longrightarrow> canon x = x"
  by (auto simp: is_space_def canon_def)

lemma lit_ok_space: "lit_ok f a x \<Longrightarrow> is_space x \<Longrightarrow> is_space a \<or> is_space (canon a)"
  by (cases "ignoreCase f") (auto simp: lit_ok_def canon_space)

lemma exec_bol: "fst re = Cat (Bol # rs) \<Longrightarrow> 0 < p \<Longrightarrow> exec_from re p s = None"
  by (induction s arbitrary: p) (simp_all add: mtch_step)

lemma match_bol:
  "fst re = Cat (Bol # rs) \<Longrightarrow>
   str_match s re = map_option snd (mtch (snd re) (map Re rs) 0 s [])"
  by (cases s) (auto simp: str_match_def mtch_step exec_bol split: option.splits)

lemma solid_no_match:
  assumes "starts_solid (fst re)" and "s = [] \<or> is_space (hd s)"
  shows "str_match s re = None"
proof -
  from assms(1) obtain r rs a where re: "fst re = Cat (Bol # r # rs)"
    and fl: "first_lit r = Some a" and a: "\<not> is_space a" "\<not> is_space (canon a)"
    by (auto elim!: starts_solid.elims split: option.splits)
  have "s = [] \<or> \<not> lit_ok (snd re) a (hd s)"
    using assms(2) a lit_ok_space by blast
  then have "mtch (snd re) (Re r # map Re rs) 0 s [] = None"
    by (rule first_lit_fails [OF fl])
  then show ?thesis by (simp add: match_bol [OF re])
qed

lemma mtch_sets:
  "mtch f k p s c = Some (s', c') \<Longrightarrow> list_ex (item_sets n) k \<or> n \<in> fst ` set c \<Longrightarrow>
   n \<in> fst ` set c'"
proof (induction f k p s c rule: mtch.induct)
  case (1 f p s c)
  then show ?case by (simp add: mtch_step)
next
  case (2 f n s0 k p s c)
  then show ?case by (auto simp: mtch_step)
next
  case (3 f k p s c)
  then show ?case by (auto simp: mtch_step split: if_splits)
next
  case (4 f k p s c)
  then show ?case by (auto simp: mtch_step)
next
  case (5 f a as k p s c)
  then show ?case by (auto simp: mtch_step split: list.splits if_splits)
next
  case (6 f a k p s c)
  then show ?case by (auto simp: mtch_step split: list.splits if_splits)
next
  case (7 f rs k p s c)
  have "list_ex (item_sets n) (map Re rs @ k) \<or> n \<in> fst ` set c"
  proof (cases "n \<in> fst ` set c")
    case False
    then have "list_ex (item_sets n) (Re (Cat rs) # k)" using 7(3) by simp
    then have "list_ex (sets_group n) rs \<or> list_ex (item_sets n) k" by simp
    moreover have "list_ex (item_sets n) (map Re rs)" if "list_ex (sets_group n) rs"
      using that by (induction rs) auto
    ultimately show ?thesis by (auto simp: list_ex_append)
  qed simp
  then show ?case using 7(1) 7(2) by (simp add: mtch_step)
next
  case (8 f r1 r2 k p s c)
  then show ?case by (auto simp: mtch_step split: option.splits)
next
  case (9 f r k p s c)
  then show ?case by (auto simp: mtch_step split: option.splits)
next
  case (10 f a k p s c)
  have m: "(case s of
        [] \<Rightarrow> mtch f k p s c
      | x # xs \<Rightarrow>
          if accepts f a x
          then (case mtch f (Re (Star a) # k) (Suc p) xs c of
                  Some m \<Rightarrow> Some m
                | None \<Rightarrow> mtch f k p s c)
          else mtch f k p s c) = Some (s', c')"
    using "10.prems"(1) by (simp only: mtch.simps(10) [of f a k p s c])
  have g: "list_ex (item_sets n) k \<or> n \<in> fst ` set c"
    using "10.prems"(2) by simp
  have g': "list_ex (item_sets n) (Re (Star a) # k) \<or> n \<in> fst ` set c"
    using "10.prems"(2) by simp
  show ?case
  proof (cases s)
    case Nil
    then show ?thesis using m g "10.IH"(1) by simp
  next
    case (Cons x xs)
    show ?thesis
    proof (cases "accepts f a x")
      case False
      then show ?thesis using m g Cons "10.IH"(4) by simp
    next
      case True
      show ?thesis
      proof (cases "mtch f (Re (Star a) # k) (Suc p) xs c")
        case None
        then show ?thesis using m g Cons True "10.IH"(3) by simp
      next
        case (Some r)
        then show ?thesis using m g' Cons True "10.IH"(2) by simp
      qed
    qed
  qed
next
  case (11 f a k p s c)
  have m: "(case mtch f k p s c of
        Some m \<Rightarrow> Some m
      | None \<Rightarrow>
          (case s of
             [] \<Rightarrow> None
           | x # xs \<Rightarrow> if accepts f a x then mtch f (Re (Lazy a) # k) (Suc p) xs c else None)) =
      Some (s', c')"
    using "11.prems"(1) by (simp only: mtch.simps(11) [of f a k p s c])
  have g: "list_ex (item_sets n) k \<or> n \<in> fst ` set c"
    using "11.prems"(2) by simp
  have g': "list_ex (item_sets n) (Re (Lazy a) # k) \<or> n \<in> fst ` set c"
    using "11.prems"(2) by simp
  show ?case
  proof (cases "mtch f k p s c")
    case (Some r)
    then show ?thesis using m g "11.IH"(1) by simp
  next
    case None
    show ?thesis
    proof (cases s)
      case Nil
      then show ?thesis using m None by simp
    next
      case (Cons x xs)
      then show ?thesis using m None g' "11.IH"(2) [OF None Cons]
        by (simp split: if_splits)
    qed
  qed
next
  case (12 f n r k p s c)
  then show ?case by (auto simp: mtch_step)
qed

lemma exec_sets:
  "exec_from re p s = Some m \<Longrightarrow> sets_group n (fst re) \<Longrightarrow> n \<in> fst ` set m"
proof (induction s arbitrary: p)
  case Nil
  then show ?case
    using mtch_sets [of "snd re" "[Re (fst re)]" p "[]" "[]" _ m n]
    by (auto split: option.splits)
next
  case (Cons x xs)
  then show ?case
    using mtch_sets [of "snd re" "[Re (fst re)]" p "x # xs" "[]" _ m n]
    by (auto split: option.splits)
qed

lemma match_sets:
  "str_match s re = Some m \<Longrightarrow> sets_group n (fst re) \<Longrightarrow> \<exists>g. map_of m n = Some g"
proof -
  assume "str_match s re = Some m" "sets_group n (fst re)"
  then have "n \<in> fst ` set m" unfolding str_match_def by (rule exec_sets)
  then show ?thesis by (metis map_of_eq_None_iff not_Some_eq)
qed

lemma patterns_solid: "list_all (\<lambda>re. starts_solid (fst re)) commentPatterns"
  by code_simp

lemma patterns_group1: "list_all (\<lambda>re. sets_group 1 (fst re)) commentPatterns"
  by code_simp

section \<open>Properties of the confidence bands\<close>

text \<open>
  C2. The classification of a score is a total step function with inclusive lower
  bounds. For every vector-similarity score, \<open>getConfidenceClass\<close> is "high" exactly from
  0.7 on, "medium" exactly from 0.4 up to but excluding 0.7, and "low" otherwise (so
  0.75 and the boundary 0.7 are "high", 0.5 is "medium" and 0.1 is "low"); for every
  lexical score, \<open>getFuzzyClass\<close> is "high" exactly from 0.8 on, "medium" exactly from
  0.6 up to but excluding 0.8, and "low" otherwise. The comparisons are those of
  JavaScript, all false on \<open>NaN\<close>, which is therefore "low".
\<close>

theorem confidence_bands:
  "(getConfidenceClass s = js ''high'' \<longleftrightarrow> js_ge s lit_0_7) \<and>
   (getConfidenceClass s = js ''medium'' \<longleftrightarrow> js_ge s lit_0_4 \<and> js_lt s lit_0_7) \<and>
   (getConfidenceClass s = js ''low'' \<longleftrightarrow>
      \<not> js_ge s lit_0_7 \<and> \<not> (js_ge s lit_0_4 \<and> js_lt s lit_0_7)) \<and>
   (getFuzzyClass t = js ''high'' \<longleftrightarrow> js_ge t lit_0_8) \<and>
   (getFuzzyClass t = js ''medium'' \<longleftrightarrow> js_ge t lit_0_6 \<and> js_lt t lit_0_8) \<and>
   (getFuzzyClass t = js ''low'' \<longleftrightarrow>
      \<not> js_ge t lit_0_8 \<and> \<not> (js_ge t lit_0_6 \<and> js_lt t lit_0_8)) \<and>
   getConfidenceClass lit_0_75 = js ''high'' \<and>
   getConfidenceClass lit_0_7 = js ''high'' \<and>
   getConfidenceClass lit_0_5 = js ''medium'' \<and>
   getConfidenceClass lit_0_1 = js ''low''"
proof -
  have c: "(getConfidenceClass s = js ''high'' \<longleftrightarrow> js_ge s lit_0_7) \<and>
   (getConfidenceClass s = js ''medium'' \<longleftrightarrow> js_ge s lit_0_4 \<and> js_lt s lit_0_7) \<and>
   (getConfidenceClass s = js ''low'' \<longleftrightarrow>
      \<not> js_ge s lit_0_7 \<and> \<not> (js_ge s lit_0_4 \<and> js_lt s lit_0_7))"
    by (cases s) (simp_all add: getConfidenceClass_def js_def lit_0_7_def lit_0_4_def)
  have f: "(getFuzzyClass t = js ''high'' \<longleftrightarrow> js_ge t lit_0_8) \<and>
   (getFuzzyClass t = js ''medium'' \<longleftrightarrow> js_ge t lit_0_6 \<and> js_lt t lit_0_8) \<and>
   (getFuzzyClass t = js ''low'' \<longleftrightarrow>
      \<not> js_ge t lit_0_8 \<and> \<not> (js_ge t lit_0_6 \<and> js_lt t lit_0_8))"
    by (cases t) (simp_all add: getFuzzyClass_def js_def lit_0_8_def lit_0_6_def)
  have e: "getConfidenceClass lit_0_75 = js ''high'' \<and>
   getConfidenceClass lit_0_7 = js ''high'' \<and>
   getConfidenceClass lit_0_5 = js ''medium'' \<and>
   getConfidenceClass lit_0_1 = js ''low''"
    by (simp add: getConfidenceClass_def js_def lit_0_7_def lit_0_4_def lit_0_75_def
        lit_0_5_def lit_0_1_def)
  from c f e show ?thesis by blast
qed

section \<open>Properties of the splitter\<close>

lemma for_patterns_no_match:
  "list_all (\<lambda>p. str_match w p = None) ps \<Longrightarrow> for_patterns ps w cs = Inr (w, cs)"
  by (induction ps) simp_all

lemma for_patterns_first_match:
  "list_all (\<lambda>q. str_match w q = None) ps \<Longrightarrow> str_match w p = Some m \<Longrightarrow>
   for_patterns (ps @ p # qs) w cs = on_match m cs"
  by (induction ps) simp_all

lemma on_match_shape:
  assumes "map_of m 1 = Some g"
  shows "\<exists>w. on_match m [] = Inr (w, []) \<or>
     (trim (remove_stars g) \<noteq> [] \<and> on_match m [] = Inr (w, [trim (remove_stars g)]))"
proof (cases "map_of m 2")
  case None
  then show ?thesis using assms
    by (simp add: on_match_def Let_def str_replace_def replace_stars)
next
  case (Some h)
  then show ?thesis using assms
    by (cases "h = []") (simp_all add: on_match_def Let_def str_replace_def replace_stars)
qed

lemma for_patterns_shape:
  "list_all (\<lambda>re. sets_group 1 (fst re)) ps \<Longrightarrow>
   \<exists>w. for_patterns ps x [] = Inr (w, []) \<or>
     (\<exists>g. trim (remove_stars g) \<noteq> [] \<and> for_patterns ps x [] = Inr (w, [trim (remove_stars g)]))"
proof (induction ps)
  case Nil
  then show ?case by simp
next
  case (Cons p ps)
  show ?case
  proof (cases "str_match x p")
    case None
    then show ?thesis using Cons by simp
  next
    case (Some m)
    have "sets_group 1 (fst p)" using Cons.prems by simp
    from match_sets [OF Some this] obtain g where "map_of m 1 = Some g" by blast
    from on_match_shape [OF this] show ?thesis using Some by auto
  qed
qed

lemma remove_stars_hd: "b \<noteq> 0x2A \<Longrightarrow> remove_stars (b # r) = b # remove_stars r"
  by (cases r) simp_all

lemma remove_stars_clean: "\<not> str_includes (remove_stars s) (js ''**'')"
proof (induction s rule: remove_stars.induct)
  case (1 a b r)
  show ?case
  proof (cases "[a, b] = js ''**''")
    case True
    then show ?thesis using 1 by simp
  next
    case False
    have ih: "\<not> str_includes (remove_stars (b # r)) (js ''**'')" using 1(2) [OF False] .
    show ?thesis
    proof (cases "a = 0x2A")
      case True
      then have "b \<noteq> 0x2A" using False by simp
      then show ?thesis using ih False remove_stars_hd [of b r] by (simp add: js_def)
    next
      case na: False
      then show ?thesis using ih False by (simp add: js_def)
    qed
  qed
next
  case (2 a)
  show ?case by (simp add: js_def)
next
  case 3
  show ?case by (simp add: js_def)
qed

lemma str_includes_Nil [simp]: "str_includes s []"
  by (cases s) simp_all

lemma str_includes_dropWhile: "str_includes (dropWhile P s) t \<Longrightarrow> str_includes s t"
  by (induction s) (auto split: if_splits)

lemma str_includes_append: "str_includes a t \<Longrightarrow> str_includes (a @ b) t"
proof (induction a)
  case Nil
  then show ?case by simp
next
  case (Cons x xs)
  show ?case
  proof (cases "take (length t) (x # xs) = t")
    case True
    then have "length (take (length t) (x # xs)) = length t" by simp
    then have "length t \<le> length (x # xs)" by (metis length_take min.cobounded1)
    then have "take (length t) ((x # xs) @ b) = take (length t) (x # xs)"
      by (simp only: take_append) simp
    then show ?thesis using True by simp
  next
    case False
    then show ?thesis using Cons by simp
  qed
qed

lemma str_includes_trim: "str_includes (trim s) t \<Longrightarrow> str_includes s t"
proof -
  assume a: "str_includes (trim s) t"
  let ?d = "dropWhile is_space s"
  have "str_includes (rev (dropWhile is_space (rev ?d)) @ rev (takeWhile is_space (rev ?d))) t"
    using a unfolding trim_def by (rule str_includes_append)
  then have "str_includes ?d t" by (simp only: trim_prefix)
  then show ?thesis by (rule str_includes_dropWhile)
qed

lemma comment_shape:
  "\<exists>w. for_patterns commentPatterns x [] = Inr (w, []) \<or>
     (\<exists>g. trim (remove_stars g) \<noteq> [] \<and>
          for_patterns commentPatterns x [] = Inr (w, [trim (remove_stars g)]))"
  using patterns_group1 by (rule for_patterns_shape)

lemma space_no_span: "list_all is_space x \<Longrightarrow> \<not> has_span x"
proof (induction x)
  case Nil
  show ?case by simp
next
  case (Cons c cs)
  then have "c \<noteq> 0x2A" by (auto simp: is_space_def)
  then show ?case using Cons by (simp add: span_at_not_star)
qed

text \<open>
  C7. For the input "Basierend auf unseren Erfahrungen: Die Lieferzeit betraegt 4 Wochen."
  (the source writes a-umlaut for "ae") the splitter returns the comment "Basierend auf
  unseren Erfahrungen:" and the clean answer "Die Lieferzeit betraegt 4 Wochen.": the
  German preamble is the comment and the remainder is the answer.
\<close>

theorem preamble_example:
  "separateCommentAndAnswer
     (js (''Basierend auf unseren Erfahrungen: Die Lieferzeit betr'' @ ae @ ''gt 4 Wochen.'')) =
   Inr \<lparr>comment = js ''Basierend auf unseren Erfahrungen:'',
        answer = js (''Die Lieferzeit betr'' @ ae @ ''gt 4 Wochen.'')\<rparr>"
  by code_simp

text \<open>
  C1. For the input "**Antwort**: Ja, das ist moeglich." (the source writes o-umlaut for
  "oe") the splitter is to return the empty comment and the answer "Ja, das ist
  moeglich.". The code does not: a header pattern has a single group, which holds the
  answer, and the loop takes \<open>match[1]\<close> for the comment whatever the pattern, so the
  answer comes back a second time as the comment.
\<close>

theorem header_answer_as_comment:
  "separateCommentAndAnswer (js (''**Antwort**: Ja, das ist m'' @ oe @ ''glich.'')) =
   Inr \<lparr>comment = js (''Ja, das ist m'' @ oe @ ''glich.''),
        answer = js (''Ja, das ist m'' @ oe @ ''glich.'')\<rparr>"
  by code_simp

text \<open>
  C6. When no pattern of the library matches the input, the comment is empty and the
  whole input is the working text, changed only by the clean-up that is always applied;
  in particular "Die Antwort lautet 42." comes back unchanged with an empty comment.
\<close>

theorem no_match_whole_input:
  "(list_all (\<lambda>p. str_match x p = None) commentPatterns \<longrightarrow>
      separateCommentAndAnswer x = Inr \<lparr>comment = [], answer = cleanAnswer x\<rparr>) \<and>
   separateCommentAndAnswer (js ''Die Antwort lautet 42.'') =
     Inr \<lparr>comment = [], answer = js ''Die Antwort lautet 42.''\<rparr>"
proof
  show "list_all (\<lambda>p. str_match x p = None) commentPatterns \<longrightarrow>
      separateCommentAndAnswer x = Inr \<lparr>comment = [], answer = cleanAnswer x\<rparr>"
    by (simp add: separateCommentAndAnswer_def split_with_def for_patterns_no_match js_def)
  show "separateCommentAndAnswer (js ''Die Antwort lautet 42.'') =
     Inr \<lparr>comment = [], answer = js ''Die Antwort lautet 42.''\<rparr>"
    by code_simp
qed

text \<open>The general part of C6 at "Die Antwort lautet 42.", which no pattern matches.\<close>

theorem no_match_whole_input_witness:
  "list_all (\<lambda>p. str_match (js ''Die Antwort lautet 42.'') p = None) commentPatterns \<and>
   cleanAnswer (js ''Die Antwort lautet 42.'') = js ''Die Antwort lautet 42.'' \<and>
   separateCommentAndAnswer (js ''Die Antwort lautet 42.'') =
     Inr \<lparr>comment = [], answer = js ''Die Antwort lautet 42.''\<rparr>"
proof -
  have a: "list_all (\<lambda>p. str_match (js ''Die Antwort lautet 42.'') p = None) commentPatterns"
    by code_simp
  have b: "cleanAnswer (js ''Die Antwort lautet 42.'') = js ''Die Antwort lautet 42.''"
    by code_simp
  from a b no_match_whole_input [of "js ''Die Antwort lautet 42.''"] show ?thesis by simp
qed

text \<open>
  C4. The first pattern of the library that matches decides the result: when the
  patterns before \<open>p\<close> do not match the input and \<open>p\<close> does, the splitter returns what
  \<open>p\<close> alone produces, and so does the splitter with any other patterns \<open>qs'\<close> in place
  of those that follow \<open>p\<close>.
\<close>

theorem first_match_wins:
  "commentPatterns = ps @ p # qs \<Longrightarrow> list_all (\<lambda>q. str_match x q = None) ps \<Longrightarrow>
   str_match x p \<noteq> None \<Longrightarrow>
   separateCommentAndAnswer x = split_with [p] x \<and>
   split_with (ps @ p # qs') x = split_with [p] x"
proof -
  assume cp: "commentPatterns = ps @ p # qs"
    and nm: "list_all (\<lambda>q. str_match x q = None) ps" and "str_match x p \<noteq> None"
  then obtain m where m: "str_match x p = Some m" by blast
  have "for_patterns (ps @ p # qs'') x [] = on_match m []" for qs''
    using nm m by (rule for_patterns_first_match)
  moreover have "for_patterns [p] x [] = on_match m []" using m by simp
  ultimately show ?thesis
    by (simp add: separateCommentAndAnswer_def split_with_def cp)
qed

text \<open>
  C4 at "Laut Vertrag: 4 Wochen": the third pattern is the first to match, and a
  further pattern that would match too, put after it, changes nothing.
\<close>

theorem first_match_wins_witness:
  "commentPatterns =
     [(preamble (Lits (js ''Basierend auf'')), flags_s), (preamble (Lits (js ''Aufgrund'')), flags_s)] @
     (preamble (Lits (js ''Laut'')), flags_s) # drop 3 commentPatterns \<and>
   list_all (\<lambda>q. str_match (js ''Laut Vertrag: 4 Wochen'') q = None)
     [(preamble (Lits (js ''Basierend auf'')), flags_s), (preamble (Lits (js ''Aufgrund'')), flags_s)] \<and>
   str_match (js ''Laut Vertrag: 4 Wochen'') (preamble (Lits (js ''Laut'')), flags_s) \<noteq> None \<and>
   str_match (js ''Laut Vertrag: 4 Wochen'') (header (Lits (js ''Laut'')), flags_s) \<noteq> None \<and>
   separateCommentAndAnswer (js ''Laut Vertrag: 4 Wochen'') =
     split_with [(preamble (Lits (js ''Laut'')), flags_s)] (js ''Laut Vertrag: 4 Wochen'') \<and>
   split_with
     ([(preamble (Lits (js ''Basierend auf'')), flags_s), (preamble (Lits (js ''Aufgrund'')), flags_s)] @
      (preamble (Lits (js ''Laut'')), flags_s) # [(header (Lits (js ''Laut'')), flags_s)])
     (js ''Laut Vertrag: 4 Wochen'') =
     split_with [(preamble (Lits (js ''Laut'')), flags_s)] (js ''Laut Vertrag: 4 Wochen'')"
proof -
  have h1: "commentPatterns =
     [(preamble (Lits (js ''Basierend auf'')), flags_s), (preamble (Lits (js ''Aufgrund'')), flags_s)] @
     (preamble (Lits (js ''Laut'')), flags_s) # drop 3 commentPatterns"
    by (simp add: commentPatterns_def)
  have h2: "list_all (\<lambda>q. str_match (js ''Laut Vertrag: 4 Wochen'') q = None)
     [(preamble (Lits (js ''Basierend auf'')), flags_s), (preamble (Lits (js ''Aufgrund'')), flags_s)]"
    by code_simp
  have h3: "str_match (js ''Laut Vertrag: 4 Wochen'') (preamble (Lits (js ''Laut'')), flags_s) \<noteq> None"
    by code_simp
  have h4: "str_match (js ''Laut Vertrag: 4 Wochen'') (header (Lits (js ''Laut'')), flags_s) \<noteq> None"
    by code_simp
  note c = first_match_wins [OF h1 h2 h3, of "[(header (Lits (js ''Laut'')), flags_s)]"]
  from h1 h2 h3 h4 c show ?thesis by blast
qed

text \<open>
  C5. The splitter does not raise on empty or white-space-only input: for every string
  of white space only, the empty string included, it returns the empty comment and the
  empty answer.
\<close>

theorem whitespace_input:
  "list_all is_space x \<Longrightarrow> separateCommentAndAnswer x = Inr \<lparr>comment = [], answer = []\<rparr>"
proof -
  assume sp: "list_all is_space x"
  then have e: "x = [] \<or> is_space (hd x)" by (cases x) simp_all
  have "list_all (\<lambda>p. str_match x p = None) commentPatterns"
    using patterns_solid solid_no_match [OF _ e] by (simp add: list_all_iff)
  then have fp: "for_patterns commentPatterns x [] = Inr (x, [])"
    by (rule for_patterns_no_match)
  have "dropWhile is_space x = []" using sp by (simp add: list_all_iff)
  then have "trim x = []" unfolding trim_def by (simp del: dropWhile_eq_Nil_conv)
  then have "cleanAnswer x = []"
    using space_no_span [OF sp] by (simp add: cleanAnswer_eq no_span_strip no_span_unbold)
  then show ?thesis using fp by (simp add: separateCommentAndAnswer_def split_with_def)
qed

text \<open>C5 at a blank, a tab and a line feed, and at the empty string.\<close>

theorem whitespace_input_witness:
  "list_all is_space [0x20, 0x09, 0x0A] \<and>
   separateCommentAndAnswer [0x20, 0x09, 0x0A] = Inr \<lparr>comment = [], answer = []\<rparr> \<and>
   separateCommentAndAnswer [] = Inr \<lparr>comment = [], answer = []\<rparr>"
proof -
  have a: "list_all is_space [0x20, 0x09, 0x0A]" by (simp add: is_space_def)
  show ?thesis
    using a whitespace_input [OF a] whitespace_input [of "[]"] by simp
qed

text \<open>
  C9. For every input the splitter returns, and the comment it returns contains no
  \<open>**\<close> and has no white space at either end: it is its own trim.
\<close>

theorem comment_clean:
  "\<exists>r. separateCommentAndAnswer x = Inr r \<and>
       \<not> str_includes (comment r) (js ''**'') \<and> trim (comment r) = comment r"
proof -
  from comment_shape [of x] obtain w where
    "for_patterns commentPatterns x [] = Inr (w, []) \<or>
     (\<exists>g. trim (remove_stars g) \<noteq> [] \<and>
          for_patterns commentPatterns x [] = Inr (w, [trim (remove_stars g)]))" ..
  then show ?thesis
  proof
    assume "for_patterns commentPatterns x [] = Inr (w, [])"
    then show ?thesis
      by (simp add: separateCommentAndAnswer_def split_with_def js_def trim_def)
  next
    assume "\<exists>g. trim (remove_stars g) \<noteq> [] \<and>
          for_patterns commentPatterns x [] = Inr (w, [trim (remove_stars g)])"
    then obtain g where g: "for_patterns commentPatterns x [] = Inr (w, [trim (remove_stars g)])"
      by blast
    have "\<not> str_includes (trim (remove_stars g)) (js ''**'')"
      using remove_stars_clean str_includes_trim by blast
    then show ?thesis using g
      by (simp add: separateCommentAndAnswer_def split_with_def trim_idem)
  qed
qed

text \<open>
  C8, as amended. Whether or not a pattern matched, the clean answer is the trim of the
  working text after two steps: a span \<open>**t**\<close> at the very start of the working text
  (\<open>t\<close> on one line, up to the first closing \<open>**\<close>) is removed together with its text
  and with the white space, the optional colon and the white space after it, whether or
  not a colon follows; then every remaining span \<open>**t**\<close> with \<open>t\<close> on one line is
  replaced by \<open>t\<close>. No such span is left in the clean answer.
\<close>

theorem cleanup_applied:
  "\<exists>w cs. for_patterns commentPatterns x [] = Inr (w, cs) \<and>
     separateCommentAndAnswer x =
       Inr \<lparr>comment = join (js '' '') cs, answer = trim (unbold (strip_leading_span w))\<rparr> \<and>
     \<not> has_span (trim (unbold (strip_leading_span w)))"
proof -
  from comment_shape [of x] obtain w cs where fp: "for_patterns commentPatterns x [] = Inr (w, cs)"
    by blast
  have "\<not> has_span (trim (unbold (strip_leading_span w)))"
    using unbold_no_span has_span_trim by blast
  then show ?thesis using fp
    by (auto simp: separateCommentAndAnswer_def split_with_def cleanAnswer_eq)
qed

text \<open>
  C8 as stated fails: in "**Ja**, das ist gut." the span at the start is followed by no
  colon, and its text is not kept. The answer is ", das ist gut.", where "Ja" does not
  occur.
\<close>

theorem leading_span_lost:
  "separateCommentAndAnswer (js ''**Ja**, das ist gut.'') =
     Inr \<lparr>comment = [], answer = js '', das ist gut.''\<rparr> \<and>
   \<not> str_includes (js '', das ist gut.'') (js ''Ja'')"
  by code_simp




section \<open>Properties of the source formatter\<close>

declare number_to_string.simps [simp del]

lemma digit_unat: "k < 10 \<Longrightarrow> unat (of_nat (48 + k) :: cu) = 48 + k"
proof -
  assume k: "k < 10"
  have "unat (of_nat (48 + k) :: cu) = (48 + k) mod 2 ^ 16"
    by (simp only: unat_of_nat) simp
  then show ?thesis using k by simp
qed

lemma number_to_string_decimal: "decimal_value (number_to_string n) = n"
proof (induction n rule: number_to_string.induct)
  case (1 n)
  show ?case
  proof (cases "n < 10")
    case True
    then show ?thesis
      by (subst number_to_string.simps) (simp add: decimal_value_def digit_unat del: of_nat_add)
  next
    case False
    have "unat (of_nat (48 + n mod 10) :: cu) = 48 + n mod 10"
      by (rule digit_unat) simp
    then show ?thesis using False 1 [OF False]
      by (subst number_to_string.simps) (simp add: decimal_value_def del: of_nat_add)
  qed
qed

lemma join_hd: "x \<noteq> [] \<Longrightarrow> hd (join sep (x # ys)) = hd x"
  by (cases ys) simp_all

lemma source_entry_hd: "hd (source_entry i s) = of_char CHR ''S''"
  by (simp add: source_entry_def js_def)

lemma source_entry_ne: "source_entry i s \<noteq> []"
  by (simp add: source_entry_def js_def)

lemma map_enumerate_nth:
  "map (\<lambda>(i, s). f i s) (enumerate 0 xs) = map (\<lambda>i. f i (xs ! i)) [0..<length xs]"
  by (rule nth_equalityI) (simp_all add: nth_enumerate_eq)

text \<open>
  C10. \<open>formatSourcesForExcel\<close> returns "Keine Quellen" exactly when the source list is
  null or empty. Otherwise it returns, joined by " | ", one entry for each source: the
  entry of the source at index \<open>i\<close> is "Source ", the decimal digits of \<open>i + 1\<close>, ": "
  and the first 100 code units of the question text, followed by "..." exactly when the
  question text is longer than 100 code units.
\<close>

theorem excel_sources:
  "(formatSourcesForExcel sources = js ''Keine Quellen'' \<longleftrightarrow>
      sources = None \<or> sources = Some []) \<and>
   (sources = Some xs \<and> xs \<noteq> [] \<longrightarrow>
      formatSourcesForExcel sources =
        join (js '' | '')
          (map (\<lambda>i. js ''Source '' @ number_to_string (i + 1) @ js '': '' @
                    take 100 (question_text (xs ! i)) @
                    (if 100 < length (question_text (xs ! i)) then js ''...'' else []))
               [0..<length xs])) \<and>
   decimal_value (number_to_string n) = n"
proof (intro conjI impI)
  show "formatSourcesForExcel sources = js ''Keine Quellen'' \<longleftrightarrow>
      sources = None \<or> sources = Some []"
  proof (cases sources)
    case None
    then show ?thesis by (simp add: formatSourcesForExcel_def)
  next
    case (Some ys)
    show ?thesis
    proof (cases ys)
      case Nil
      then show ?thesis using Some by (simp add: formatSourcesForExcel_def)
    next
      case (Cons y ys')
      have "hd (formatSourcesForExcel sources) = of_char CHR ''S''"
        using Some Cons
        by (simp add: formatSourcesForExcel_def enumerate_simps join_hd source_entry_ne source_entry_hd)
      moreover have "hd (js ''Keine Quellen'') = (of_char CHR ''K'' :: cu)"
        by (simp add: js_def)
      ultimately have "formatSourcesForExcel sources \<noteq> js ''Keine Quellen''"
        by auto
      then show ?thesis using Some Cons by simp
    qed
  qed
next
  assume a: "sources = Some xs \<and> xs \<noteq> []"
  have "formatSourcesForExcel sources =
      join (js '' | '') (map (\<lambda>(index, source). source_entry index source) (enumerate 0 xs))"
    using a by (simp add: formatSourcesForExcel_def)
  also have "\<dots> = join (js '' | '') (map (\<lambda>i. source_entry i (xs ! i)) [0..<length xs])"
    by (simp only: map_enumerate_nth)
  also have "(\<lambda>i. source_entry i (xs ! i)) =
      (\<lambda>i. js ''Source '' @ number_to_string (i + 1) @ js '': '' @
                    take 100 (question_text (xs ! i)) @
                    (if 100 < length (question_text (xs ! i)) then js ''...'' else []))"
    by (rule ext) (simp add: source_entry_def substring_def js_def)
  finally show "formatSourcesForExcel sources =
        join (js '' | '')
          (map (\<lambda>i. js ''Source '' @ number_to_string (i + 1) @ js '': '' @
                    take 100 (question_text (xs ! i)) @
                    (if 100 < length (question_text (xs ! i)) then js ''...'' else []))
               [0..<length xs])" .
next
  show "decimal_value (number_to_string n) = n" by (rule number_to_string_decimal)
qed

text \<open>C10 at a list of two sources, the second with a question of 101 code units.\<close>

theorem excel_sources_witness:
  "formatSourcesForExcel (Some [\<lparr>question_text = js ''Wie lange?''\<rparr>, \<lparr>question_text = replicate 101 0x41\<rparr>]) =
     js ''Source 1: Wie lange? | Source 2: '' @ replicate 100 0x41 @ js ''...'' \<and>
   formatSourcesForExcel (Some ([] :: source list)) = js ''Keine Quellen'' \<and>
   formatSourcesForExcel (None :: source list option) = js ''Keine Quellen''"
proof -
  let ?xs = "[\<lparr>question_text = js ''Wie lange?''\<rparr>, \<lparr>question_text = replicate 101 0x41\<rparr>]"
  have a: "Some ?xs = Some ?xs \<and> ?xs \<noteq> []" by simp
  have n: "number_to_string (Suc 0) = js ''1''" "number_to_string (Suc (Suc 0)) = js ''2''"
    by (simp_all add: js_def number_to_string.simps)
  have u: "[0..<2] = [0, 1]" by (simp add: upt_rec)
  from excel_sources [of "Some ?xs" ?xs] a
  have "formatSourcesForExcel (Some ?xs) =
        join (js '' | '')
          (map (\<lambda>i. js ''Source '' @ number_to_string (i + 1) @ js '': '' @
                    take 100 (question_text (?xs ! i)) @
                    (if 100 < length (question_text (?xs ! i)) then js ''...'' else []))
               [0..<length ?xs])"
    by blast
  then have 1: "formatSourcesForExcel (Some ?xs) =
     js ''Source 1: Wie lange? | Source 2: '' @ replicate 100 0x41 @ js ''...''"
    by (simp add: u n js_def)
  have 2: "formatSourcesForExcel (Some ([] :: source list)) = js ''Keine Quellen''"
    using excel_sources [of "Some ([] :: source list)"] by simp
  have 3: "formatSourcesForExcel (None :: source list option) = js ''Keine Quellen''"
    using excel_sources [of "None :: source list option"] by simp
  from 1 2 3 show ?thesis by blast
qed

end
